theory Spec2Isabelle
  imports Main
begin

section \<open>Python string primitives used by the trainer\<close>

text \<open>
  Text is a list of characters. A \<^typ>\<open>char\<close> stands for a code point below 256;
  on that range \<open>is_space\<close> is Python's \<^verbatim>\<open>str.isspace\<close> (the predicate behind
  \<^verbatim>\<open>str.strip()\<close> and \<^verbatim>\<open>str.split()\<close> without arguments) and \<open>lower_char\<close> is
  \<^verbatim>\<open>str.lower\<close>.
\<close>

definition is_space :: "char \<Rightarrow> bool" where
  "is_space c =
     (let n = (of_char c :: nat)
      in (9 \<le> n \<and> n \<le> 13) \<or> (28 \<le> n \<and> n \<le> 32) \<or> n = 133 \<or> n = 160)"

definition lower_char :: "char \<Rightarrow> char" where
  "lower_char c =
     (let n = (of_char c :: nat)
      in if (65 \<le> n \<and> n \<le> 90) \<or> (192 \<le> n \<and> n \<le> 222 \<and> n \<noteq> 215)
         then char_of (n + 32) else c)"

definition lower :: "string \<Rightarrow> string" where
  "lower s = map lower_char s"

text \<open>\<^verbatim>\<open>s.strip()\<close>: drop the whitespace at both ends.\<close>

definition strip :: "string \<Rightarrow> string" where
  "strip s = rev (dropWhile is_space (rev (dropWhile is_space s)))"

text \<open>
  \<^verbatim>\<open>s.split()\<close>: the maximal runs of non-whitespace characters, in order. The scan keeps
  the word read so far in \<open>w\<close> and emits it at the next whitespace character or at the end.
\<close>

fun split_scan :: "string \<Rightarrow> string \<Rightarrow> string list" where
  "split_scan w [] = (if w = [] then [] else [w])"
| "split_scan w (c # cs) =
     (if is_space c then (if w = [] then split_scan [] cs else w # split_scan [] cs)
      else split_scan (w @ [c]) cs)"

definition split_ws :: "string \<Rightarrow> string list" where
  "split_ws s = split_scan [] s"

text \<open>\<^verbatim>\<open>sep.join(ws)\<close>.\<close>

fun join :: "string \<Rightarrow> string list \<Rightarrow> string" where
  "join sep [] = []"
| "join sep [w] = w"
| "join sep (w # v # ws) = w @ sep @ join sep (v # ws)"

section \<open>checker.py\<close>

definition normalise_command :: "string \<Rightarrow> string" where
  "normalise_command cmd = join '' '' (split_ws (strip cmd))"

text \<open>
  \<open>expected_command\<close> is \<^verbatim>\<open>Optional[str]\<close>; \<^verbatim>\<open>not expected_command\<close> holds for
  \<^verbatim>\<open>None\<close> and for the empty string.
\<close>

definition check_command :: "string \<Rightarrow> string option \<Rightarrow> bool" where
  "check_command user_input expected_command =
     (case expected_command of
        None \<Rightarrow> False
      | Some expected \<Rightarrow>
          if expected = [] then False
          else
            let user_norm = normalise_command user_input;
                expected_norm = normalise_command expected
            in if user_norm = expected_norm then True
               else
                 let user_parts = split_ws user_norm;
                     expected_parts = split_ws expected_norm;
                     user_base = (if user_parts \<noteq> [] then user_parts ! 0 else []);
                     expected_base = (if expected_parts \<noteq> [] then expected_parts ! 0 else [])
                 in if expected_norm = ''ls'' \<and> user_base = ''ls'' then True
                    else if expected_norm = ''history'' \<and> user_base = ''history'' then True
                    else if expected_base = ''nano'' \<and> user_base \<in> {''nano'', ''vi''}
                         then (if length expected_parts > 1 \<and> length user_parts > 1
                               then expected_parts ! 1 = user_parts ! 1
                               else False)
                    else False)"

text \<open>
  The specification's wording of normalisation: trim, then replace every run of whitespace
  by one space. \<open>collapse_runs in_run\<close> scans the text; \<open>in_run\<close> says that the previous
  character was whitespace.
\<close>

fun collapse_runs :: "bool \<Rightarrow> string \<Rightarrow> string" where
  "collapse_runs in_run [] = []"
| "collapse_runs in_run (c # cs) =
     (if is_space c then (if in_run then collapse_runs True cs
                          else CHR '' '' # collapse_runs True cs)
      else c # collapse_runs False cs)"

definition normalize_spec :: "string \<Rightarrow> string" where
  "normalize_spec text = collapse_runs False (strip text)"

section \<open>trainer.py\<close>

text \<open>
  A level is the dictionary read from one JSON file; \<^verbatim>\<open>level.get\<close> yields \<^verbatim>\<open>None\<close>
  for a missing \<open>number\<close>, \<open>title\<close> or \<open>expected_command\<close> and the empty string for a
  missing \<open>description\<close> or \<open>hint\<close>.
\<close>

record level =
  number :: "int option"
  title :: "string option"
  description :: string
  expected_command :: "string option"
  hint :: string

text \<open>The lines written to \<^verbatim>\<open>logs/commands.log\<close>; a timestamp is the text of
  \<^verbatim>\<open>datetime.now().isoformat()\<close>.\<close>

datatype log_entry =
    Session_started string
  | No_levels_loaded
  | Level_input "int option" string
  | User_exited
  | Session_ended string

text \<open>What the trainer prints. A header without a title shows \<^verbatim>\<open>Level {number}\<close>.\<close>

datatype message =
    No_levels_found
  | Welcome
  | Level_header "int option" "string option"
  | Description string
  | Goodbye
  | Hint string
  | No_hint
  | Correct
  | Command_output string
  | Command_error string
  | Execution_skipped
  | Incorrect
  | Blank_line
  | Congratulations

datatype exn = EOFError | IndexError

text \<open>
  \<^verbatim>\<open>subprocess.run(argv, capture_output=True, text=True, check=False)\<close> either raises
  or returns the exit status with the captured standard output and standard error.
\<close>

datatype proc_result = Run_raised | Completed_process int string string

type_synonym runner = "string list \<Rightarrow> proc_result"

datatype outcome = All_levels_done | Quit | Crashed exn | No_levels

datatype phase = AwaitingInput | Terminated outcome

text \<open>
  The state of a session: the loaded levels, the position of the \<^verbatim>\<open>for\<close> loop in them,
  the log file and whether it is open, and what was printed. \<open>checked\<close> records the calls of
  \<^verbatim>\<open>checker.check_command\<close> and \<open>executed\<close> the calls of \<^verbatim>\<open>subprocess.run\<close>.
\<close>

record session =
  levels :: "level list"
  idx :: nat
  phase :: phase
  log :: "log_entry list"
  log_open :: bool
  out :: "message list"
  checked :: "(string \<times> string option) list"
  executed :: "string list list"

definition safe_commands :: "string set" where
  "safe_commands = {''pwd'', ''ls'', ''whoami'', ''echo'', ''clear'', ''date'', ''history''}"

text \<open>The head of the \<^verbatim>\<open>for\<close> loop: show the next level, or congratulate after the last.\<close>

definition next_level :: "session \<Rightarrow> session" where
  "next_level s =
     (if idx s < length (levels s)
      then let lv = levels s ! idx s
           in s\<lparr>out := out s @ [Level_header (number lv) (title lv), Description (description lv)],
                phase := AwaitingInput\<rparr>
      else s\<lparr>out := out s @ [Congratulations], phase := Terminated All_levels_done\<rparr>)"

text \<open>
  What is shown of a finished command: its standard output and its standard error, each
  stripped and only when not empty; the exit status is not looked at. Nothing is shown when
  \<^verbatim>\<open>subprocess.run\<close> raised, for the exception is swallowed.
\<close>

definition shown :: "proc_result \<Rightarrow> message list" where
  "shown r =
     (case r of
        Run_raised \<Rightarrow> []
      | Completed_process rc stdout stderr \<Rightarrow>
          (if strip stdout \<noteq> [] then [Command_output (strip stdout)] else [])
          @ (if strip stderr \<noteq> [] then [Command_error (strip stderr)] else []))"

text \<open>Running an allow-listed command.\<close>

definition demonstrate :: "runner \<Rightarrow> session \<Rightarrow> string list \<Rightarrow> session" where
  "demonstrate run s argv =
     s\<lparr>executed := executed s @ [argv], out := out s @ shown (run argv)\<rparr>"

text \<open>
  \<^verbatim>\<open>base = user_input.split()[0] if user_input else ""\<close>; indexing an empty list raises.
\<close>

definition base_of :: "string \<Rightarrow> exn + string" where
  "base_of user_input =
     (if user_input \<noteq> []
      then (case split_ws user_input of [] \<Rightarrow> Inl IndexError | b # _ \<Rightarrow> Inr b)
      else Inr [])"

text \<open>One pass through the body of the \<^verbatim>\<open>while True\<close> loop, for the line \<open>raw\<close> that
  \<^verbatim>\<open>input\<close> returned.\<close>

definition on_input :: "runner \<Rightarrow> session \<Rightarrow> string \<Rightarrow> session" where
  "on_input run s raw =
     (let lv = levels s ! idx s;
          user_input = strip raw;
          s1 = s\<lparr>log := log s @ [Level_input (number lv) user_input]\<rparr>
      in if lower user_input \<in> {''exit'', ''quit''}
         then s1\<lparr>out := out s1 @ [Goodbye], log := log s1 @ [User_exited],
                 phase := Terminated Quit\<rparr>
         else if lower user_input = ''hint''
         then s1\<lparr>out := out s1 @ [if hint lv \<noteq> [] then Hint (hint lv) else No_hint]\<rparr>
         else
           let s2 = s1\<lparr>checked := checked s1 @ [(user_input, expected_command lv)]\<rparr>
           in if check_command user_input (expected_command lv)
              then
                let s3 = s2\<lparr>out := out s2 @ [Correct]\<rparr>
                in case base_of user_input of
                     Inl e \<Rightarrow> s3\<lparr>phase := Terminated (Crashed e)\<rparr>
                   | Inr base \<Rightarrow>
                       let s4 = (if base \<in> safe_commands
                                 then demonstrate run s3 (split_ws user_input)
                                 else s3\<lparr>out := out s3 @ [Execution_skipped]\<rparr>)
                       in next_level (s4\<lparr>out := out s4 @ [Blank_line], idx := idx s4 + 1\<rparr>)
              else s2\<lparr>out := out s2 @ [Incorrect]\<rparr>)"

text \<open>
  The session loop over the lines of standard input. At the end of input \<^verbatim>\<open>input\<close>
  raises \<^verbatim>\<open>EOFError\<close>, which nothing in the loop catches.
\<close>

fun loop :: "runner \<Rightarrow> session \<Rightarrow> string list \<Rightarrow> session" where
  "loop run s [] =
     (if phase s = AwaitingInput then s\<lparr>phase := Terminated (Crashed EOFError)\<rparr> else s)"
| "loop run s (raw # rest) =
     (if phase s = AwaitingInput then loop run (on_input run s raw) rest else s)"

text \<open>The successive states of the loop, the first one included.\<close>

fun states :: "runner \<Rightarrow> session \<Rightarrow> string list \<Rightarrow> session list" where
  "states run s [] =
     (if phase s = AwaitingInput then [s, s\<lparr>phase := Terminated (Crashed EOFError)\<rparr>] else [s])"
| "states run s (raw # rest) =
     (if phase s = AwaitingInput then s # states run (on_input run s raw) rest else [s])"

text \<open>The \<^verbatim>\<open>finally\<close> block.\<close>

definition finalize :: "string \<Rightarrow> session \<Rightarrow> session" where
  "finalize t s = s\<lparr>log := log s @ [Session_ended t], log_open := False\<rparr>"

text \<open>The session once the log file is open and the levels are loaded.\<close>

definition opened :: "string \<Rightarrow> level list \<Rightarrow> session" where
  "opened t0 lvls =
     \<lparr>levels = lvls, idx = 0, phase = AwaitingInput, log = [Session_started t0],
      log_open = True, out = [], checked = [], executed = []\<rparr>"

text \<open>
  \<^verbatim>\<open>main\<close>, for the levels that \<^verbatim>\<open>load_levels\<close> returned, the lines of standard input
  and the two readings \<open>t0\<close>, \<open>t1\<close> of the clock.
\<close>

definition main :: "runner \<Rightarrow> string \<Rightarrow> string \<Rightarrow> level list \<Rightarrow> string list \<Rightarrow> session" where
  "main run t0 t1 lvls inputs =
     (let s0 = opened t0 lvls
      in if lvls = []
         then s0\<lparr>out := out s0 @ [No_levels_found], log := log s0 @ [No_levels_loaded],
                 log_open := False, phase := Terminated No_levels\<rparr>
         else finalize t1 (loop run (next_level (s0\<lparr>out := out s0 @ [Welcome]\<rparr>)) inputs))"

text \<open>
  The two levels of the specification's end-to-end example, and the session at the first
  prompt for them.
\<close>

definition example_levels :: "level list" where
  "example_levels =
     [\<lparr>number = Some 1, title = None, description = [], expected_command = Some ''pwd'',
       hint = []\<rparr>,
      \<lparr>number = Some 2, title = None, description = [], expected_command = Some ''ls'',
       hint = ''list''\<rparr>]"

definition example_session :: session where
  "example_session = next_level ((opened ''t0'' example_levels)\<lparr>out := [Welcome]\<rparr>)"

section \<open>Splitting and joining\<close>

lemma is_space_blank: "is_space (CHR '' '')"
  by (simp add: is_space_def)

lemma split_scan_nonspace_prefix:
  "\<forall>c\<in>set v. \<not> is_space c \<Longrightarrow> split_scan w (v @ s) = split_scan (w @ v) s"
  by (induction v arbitrary: w) auto

lemma split_scan_spaces:
  "\<forall>c\<in>set z. is_space c \<Longrightarrow> split_scan w z = (if w = [] then [] else [w])"
  by (induction z arbitrary: w) auto

lemma split_scan_trailing:
  "\<forall>c\<in>set z. is_space c \<Longrightarrow> split_scan w (s @ z) = split_scan w s"
  by (induction s arbitrary: w) (auto simp: split_scan_spaces)

lemma split_scan_leading:
  "split_scan [] (dropWhile is_space s) = split_scan [] s"
  by (induction s) auto

lemma split_scan_Nil_iff:
  "split_scan w s = [] \<longleftrightarrow> w = [] \<and> (\<forall>c\<in>set s. is_space c)"
  by (induction s arbitrary: w) auto

lemma split_scan_words:
  assumes "\<forall>c\<in>set w. \<not> is_space c" and "v \<in> set (split_scan w s)"
  shows "v \<noteq> [] \<and> (\<forall>c\<in>set v. \<not> is_space c)"
  using assms
proof (induction s arbitrary: w)
  case Nil
  then show ?case by (simp split: if_splits)
next
  case (Cons a s)
  show ?case
  proof (cases "is_space a")
    case True
    then have "(v = w \<and> w \<noteq> []) \<or> v \<in> set (split_scan [] s)"
      using Cons.prems(2) by (simp split: if_splits)
    then show ?thesis
    proof
      assume "v = w \<and> w \<noteq> []"
      then show ?thesis using Cons.prems(1) by simp
    next
      assume "v \<in> set (split_scan [] s)"
      then show ?thesis using Cons.IH [of "[]"] by simp
    qed
  next
    case False
    then have 1: "v \<in> set (split_scan (w @ [a]) s)"
      using Cons.prems(2) by simp
    have 2: "\<forall>c\<in>set (w @ [a]). \<not> is_space c"
      using Cons.prems(1) False by simp
    show ?thesis by (rule Cons.IH [OF 2 1])
  qed
qed

lemma strip_decomp:
  "dropWhile is_space s = strip s @ rev (takeWhile is_space (rev (dropWhile is_space s)))"
proof -
  let ?d = "dropWhile is_space s"
  have "rev ?d = takeWhile is_space (rev ?d) @ dropWhile is_space (rev ?d)"
    by simp
  then have "rev (rev ?d) = rev (takeWhile is_space (rev ?d) @ dropWhile is_space (rev ?d))"
    by (rule arg_cong)
  then have "?d = rev (dropWhile is_space (rev ?d)) @ rev (takeWhile is_space (rev ?d))"
    by (simp only: rev_rev_ident rev_append)
  then show ?thesis
    by (simp only: strip_def)
qed

lemma split_ws_strip: "split_ws (strip s) = split_ws s"
proof -
  let ?z = "rev (takeWhile is_space (rev (dropWhile is_space s)))"
  have z: "\<forall>c\<in>set ?z. is_space c"
    by (auto dest: set_takeWhileD)
  have "split_scan [] s = split_scan [] (strip s @ ?z)"
    using strip_decomp [of s] split_scan_leading [of s] by simp
  also have "\<dots> = split_scan [] (strip s)"
    using z by (rule split_scan_trailing)
  finally show ?thesis by (simp add: split_ws_def)
qed

lemma split_scan_join:
  "\<forall>v\<in>set ws. v \<noteq> [] \<and> (\<forall>c\<in>set v. \<not> is_space c) \<Longrightarrow> split_scan [] (join '' '' ws) = ws"
proof (induction "'' ''" ws rule: join.induct)
  case 1
  then show ?case by simp
next
  case (2 w)
  then show ?case using split_scan_nonspace_prefix [of w "[]" "[]"] by simp
next
  case (3 w v ws)
  have "split_scan [] (w @ '' '' @ join '' '' (v # ws)) = split_scan w ('' '' @ join '' '' (v # ws))"
    using 3 split_scan_nonspace_prefix [of w "[]"] by simp
  also have "\<dots> = w # split_scan [] (join '' '' (v # ws))"
    using 3 by (simp add: is_space_blank)
  finally show ?case using 3 by simp
qed

lemma split_ws_words:
  "v \<in> set (split_ws s) \<Longrightarrow> v \<noteq> [] \<and> (\<forall>c\<in>set v. \<not> is_space c)"
  unfolding split_ws_def by (rule split_scan_words [of "[]"]) simp_all

lemma split_ws_normalise: "split_ws (normalise_command x) = split_ws x"
proof -
  have "split_scan [] (join '' '' (split_ws (strip x))) = split_ws (strip x)"
    by (rule split_scan_join) (use split_ws_words in blast)
  then show ?thesis by (simp add: normalise_command_def split_ws_def [of "join _ _"] split_ws_strip)
qed

lemma normalise_eq_join: "normalise_command x = join '' '' (split_ws x)"
  by (simp add: normalise_command_def split_ws_strip)

lemma normalise_idem: "normalise_command (normalise_command x) = normalise_command x"
proof -
  have "normalise_command (normalise_command x) = join '' '' (split_ws (normalise_command x))"
    by (rule normalise_eq_join)
  also have "\<dots> = join '' '' (split_ws x)"
    by (simp only: split_ws_normalise)
  also have "\<dots> = normalise_command x"
    by (rule normalise_eq_join [symmetric])
  finally show ?thesis .
qed

lemma join_Nil_iff: "\<forall>v\<in>set ws. v \<noteq> [] \<Longrightarrow> join sep ws = [] \<longleftrightarrow> ws = []"
  by (induction sep ws rule: join.induct) auto

lemma normalise_Nil_iff: "normalise_command x = [] \<longleftrightarrow> split_ws x = []"
  unfolding normalise_eq_join
  by (rule join_Nil_iff) (use split_ws_words in blast)

lemma strip_ends:
  "strip s = [] \<or> (\<not> is_space (hd (strip s)) \<and> \<not> is_space (last (strip s)))"
proof (cases "strip s = []")
  case True
  then show ?thesis by simp
next
  case False
  let ?d = "dropWhile is_space s"
  let ?e = "dropWhile is_space (rev ?d)"
  have e: "?e \<noteq> []" using False by (simp add: strip_def)
  then have 1: "\<not> is_space (hd ?e)" by (rule hd_dropWhile)
  have d: "?d \<noteq> []"
  proof
    assume "?d = []"
    then have "?e = []" by (simp only: rev.simps dropWhile.simps)
    with e show False by blast
  qed
  have "last ?e = last (rev ?d)"
    using e by (metis last_appendR takeWhile_dropWhile_id)
  then have "last ?e = hd ?d" using d by (simp add: last_rev)
  moreover have "\<not> is_space (hd ?d)" using d by (rule hd_dropWhile)
  ultimately have 2: "\<not> is_space (last ?e)" by simp
  have "hd (strip s) = last ?e" using e by (simp add: strip_def hd_rev)
  moreover have "last (strip s) = hd ?e" using e by (simp add: strip_def last_rev)
  ultimately show ?thesis using 1 2 by simp
qed

lemma join_collapse:
  "t = [] \<or> \<not> is_space (last t) \<Longrightarrow>
     (\<forall>w. w \<noteq> [] \<longrightarrow> join '' '' (split_scan w t) = w @ collapse_runs False t)
     \<and> join '' '' (split_scan [] t) = collapse_runs True t"
proof (induction t)
  case Nil
  show ?case by simp
next
  case (Cons c cs)
  show ?case
  proof (cases "is_space c")
    case True
    then have cs: "cs \<noteq> []" and l: "\<not> is_space (last cs)"
      using Cons.prems by (auto split: if_splits)
    then have ih: "(\<forall>w. w \<noteq> [] \<longrightarrow> join '' '' (split_scan w cs) = w @ collapse_runs False cs)"
      "join '' '' (split_scan [] cs) = collapse_runs True cs"
      using Cons.IH by simp_all
    have "split_scan [] cs \<noteq> []"
      using cs l last_in_set [OF cs] by (auto simp: split_scan_Nil_iff)
    then obtain v vs where vs: "split_scan [] cs = v # vs"
      by (cases "split_scan [] cs") auto
    have "\<And>w. join '' '' (w # split_scan [] cs) = w @ '' '' @ join '' '' (split_scan [] cs)"
      unfolding vs by simp
    then show ?thesis using True ih by simp
  next
    case False
    then have "cs = [] \<or> \<not> is_space (last cs)"
      using Cons.prems by (cases cs) auto
    then have ih: "\<And>w. w \<noteq> [] \<Longrightarrow> join '' '' (split_scan w cs) = w @ collapse_runs False cs"
      using Cons.IH by simp
    show ?thesis using False ih [of "[c]"] ih by simp
  qed
qed

lemma normalise_refines: "normalise_command x = normalize_spec x"
proof (cases "strip x")
  case Nil
  then show ?thesis by (simp add: normalise_command_def normalize_spec_def split_ws_def)
next
  case (Cons c cs)
  then have c: "\<not> is_space c" and l: "\<not> is_space (last (strip x))"
    using strip_ends [of x] by auto
  have "join '' '' (split_scan [] (strip x)) = collapse_runs True (strip x)"
    using join_collapse [of "strip x"] l by simp
  also have "\<dots> = collapse_runs False (strip x)"
    using Cons c by simp
  finally show ?thesis by (simp add: normalise_command_def normalize_spec_def split_ws_def)
qed

section \<open>Facts about \<open>check_command\<close>\<close>

lemma split_ws_ls: "split_ws ''ls'' = [''ls'']"
  by (simp add: split_ws_def is_space_def)

lemma split_ws_history: "split_ws ''history'' = [''history'']"
  by (simp add: split_ws_def is_space_def)

lemma split_ws_Nil: "split_ws [] = []"
  by (simp add: split_ws_def)

lemma normalise_Nil_imp: "normalise_command e \<noteq> [] \<Longrightarrow> e \<noteq> []"
  by (auto simp: normalise_command_def strip_def split_ws_def)

lemma check_command_unfold:
  "check_command u (Some e) =
     (e \<noteq> [] \<and>
      (normalise_command u = normalise_command e
       \<or> (normalise_command e = ''ls'' \<and> split_ws u \<noteq> [] \<and> split_ws u ! 0 = ''ls'')
       \<or> (normalise_command e = ''history'' \<and> split_ws u \<noteq> [] \<and> split_ws u ! 0 = ''history'')
       \<or> (split_ws e \<noteq> [] \<and> split_ws e ! 0 = ''nano'' \<and> split_ws u \<noteq> []
           \<and> (split_ws u ! 0 = ''nano'' \<or> split_ws u ! 0 = ''vi'')
           \<and> 1 < length (split_ws e) \<and> 1 < length (split_ws u)
           \<and> split_ws e ! 1 = split_ws u ! 1)))"
  by (simp add: check_command_def Let_def split_ws_normalise) blast


section \<open>Claims about the matcher\<close>

text \<open>
  C1 (amended). When the user's input normalises to the empty string, \<open>check_command\<close>
  returns true exactly when the expected command is present, is not the empty string and
  itself normalises to the empty string (Rule 1, the comparison of the normalised texts);
  it returns false for an absent or empty expected command and for every expected command
  with a character that is not whitespace.
\<close>

theorem empty_input_matches_only_blank_expected:
  "normalise_command u = [] \<Longrightarrow>
   check_command u e = (case e of None \<Rightarrow> False | Some x \<Rightarrow> x \<noteq> [] \<and> normalise_command x = [])"
proof (cases e)
  case None
  then show ?thesis by (simp add: check_command_def)
next
  case (Some x)
  assume u: "normalise_command u = []"
  then have "split_ws u = []" by (simp add: normalise_Nil_iff)
  then show ?thesis using u Some by (auto simp: check_command_unfold)
qed

text \<open>The amended C1 at the input of two spaces against the expected command \<open>ls\<close>.\<close>

theorem empty_input_matches_only_blank_expected_witness:
  "normalise_command ''  '' = [] \<and> \<not> check_command ''  '' (Some ''ls'')"
proof -
  have h: "normalise_command ''  '' = []" by code_simp
  have n: "normalise_command ''ls'' \<noteq> []" by code_simp
  show ?thesis
    using h n empty_input_matches_only_blank_expected [OF h, of "Some ''ls''"] by simp
qed

text \<open>
  C1 as stated fails: the empty input matches the expected command made of one space,
  since both normalise to the empty string.
\<close>

theorem empty_input_never_matches_counterexample:
  "normalise_command [] = [] \<and> check_command [] (Some '' '') = True"
  by code_simp

text \<open>
  C5. For every user input \<open>x\<close>, \<open>check_command\<close> returns false when the expected
  command is absent and when it is the empty string.
\<close>

theorem check_command_no_expected:
  "check_command x None = False \<and> check_command x (Some []) = False"
  by (simp add: check_command_def)

text \<open>
  C6. \<open>normalise_command\<close> is a total function that trims the whitespace at both ends
  and replaces every run of whitespace inside by one space (it equals \<open>normalize_spec\<close>,
  the specification's wording), it is idempotent, and it maps the text of the
  specification's example, \<open>ls -l\<close> with surplus spaces, to \<open>ls -l\<close>.
\<close>

theorem normalise_command_trims_collapses_idempotent:
  "normalise_command x = normalize_spec x
   \<and> normalise_command (normalise_command x) = normalise_command x
   \<and> normalise_command ''  ls   -l  '' = ''ls -l''"
proof -
  have "normalise_command ''  ls   -l  '' = ''ls -l''" by code_simp
  then show ?thesis using normalise_refines [of x] normalise_idem [of x] by simp
qed

text \<open>
  C3. When the first token of the normalised expected command is \<open>nano\<close> and the first
  token of the normalised input is \<open>nano\<close> or \<open>vi\<close>: if both token sequences have at
  least two tokens, \<open>check_command\<close> returns true exactly when the second tokens are equal;
  if one of them has fewer than two tokens, it returns true only by Rule 1, that is exactly
  when the normalised texts are equal. The three examples of the specification hold.
\<close>

theorem editor_rule_second_token:
  assumes "split_ws (normalise_command e) \<noteq> []"
    and "split_ws (normalise_command e) ! 0 = ''nano''"
    and "split_ws (normalise_command u) \<noteq> []"
    and "split_ws (normalise_command u) ! 0 \<in> {''nano'', ''vi''}"
  shows "(2 \<le> length (split_ws (normalise_command u)) \<and> 2 \<le> length (split_ws (normalise_command e))
            \<longrightarrow> check_command u (Some e)
                 = (split_ws (normalise_command u) ! 1 = split_ws (normalise_command e) ! 1))
         \<and> (length (split_ws (normalise_command u)) < 2 \<or> length (split_ws (normalise_command e)) < 2
            \<longrightarrow> check_command u (Some e) = (normalise_command u = normalise_command e))
         \<and> check_command ''vi notes.txt'' (Some ''nano notes.txt'') = True
         \<and> check_command ''vi other.txt'' (Some ''nano notes.txt'') = False
         \<and> check_command ''vi'' (Some ''nano notes.txt'') = False"
proof -
  have e: "split_ws e \<noteq> []" "split_ws e ! 0 = ''nano''"
    and u: "split_ws u \<noteq> []" "split_ws u ! 0 = ''nano'' \<or> split_ws u ! 0 = ''vi''"
    using assms by (simp_all add: split_ws_normalise)
  have ne: "e \<noteq> []" using e(1) by (auto simp: split_ws_Nil)
  have ls: "normalise_command e \<noteq> ''ls''"
  proof
    assume "normalise_command e = ''ls''"
    then have "split_ws (normalise_command e) = [''ls'']" by (simp add: split_ws_ls)
    then show False using e(2) by (simp add: split_ws_normalise)
  qed
  have hi: "normalise_command e \<noteq> ''history''"
  proof
    assume "normalise_command e = ''history''"
    then have "split_ws (normalise_command e) = [''history'']" by (simp add: split_ws_history)
    then show False using e(2) by (simp add: split_ws_normalise)
  qed
  have eq: "normalise_command u = normalise_command e \<Longrightarrow> split_ws u = split_ws e"
    by (metis split_ws_normalise)
  have 1: "check_command u (Some e) =
     (normalise_command u = normalise_command e
      \<or> (1 < length (split_ws e) \<and> 1 < length (split_ws u) \<and> split_ws e ! 1 = split_ws u ! 1))"
    using e u ne ls hi by (simp add: check_command_unfold)
  have a: "2 \<le> length (split_ws u) \<and> 2 \<le> length (split_ws e)
            \<longrightarrow> check_command u (Some e) = (split_ws u ! 1 = split_ws e ! 1)"
    using 1 eq by auto
  have b: "length (split_ws u) < 2 \<or> length (split_ws e) < 2
            \<longrightarrow> check_command u (Some e) = (normalise_command u = normalise_command e)"
    using 1 by auto
  have c: "check_command ''vi notes.txt'' (Some ''nano notes.txt'') = True" by code_simp
  have d: "check_command ''vi other.txt'' (Some ''nano notes.txt'') = False" by code_simp
  have f: "check_command ''vi'' (Some ''nano notes.txt'') = False" by code_simp
  show ?thesis using a b c d f by (simp only: split_ws_normalise simp_thms)
qed

text \<open>C3 at the input \<open>vi notes.txt\<close> against the expected command \<open>nano notes.txt\<close>.\<close>

theorem editor_rule_second_token_witness:
  "split_ws (normalise_command ''nano notes.txt'') \<noteq> []
   \<and> split_ws (normalise_command ''nano notes.txt'') ! 0 = ''nano''
   \<and> split_ws (normalise_command ''vi notes.txt'') \<noteq> []
   \<and> split_ws (normalise_command ''vi notes.txt'') ! 0 \<in> {''nano'', ''vi''}
   \<and> 2 \<le> length (split_ws (normalise_command ''vi notes.txt''))
   \<and> 2 \<le> length (split_ws (normalise_command ''nano notes.txt''))
   \<and> check_command ''vi notes.txt'' (Some ''nano notes.txt'')
       = (split_ws (normalise_command ''vi notes.txt'') ! 1
          = split_ws (normalise_command ''nano notes.txt'') ! 1)"
proof -
  have te: "split_ws (normalise_command ''nano notes.txt'') = [''nano'', ''notes.txt'']"
    by code_simp
  have tu: "split_ws (normalise_command ''vi notes.txt'') = [''vi'', ''notes.txt'']"
    by code_simp
  have h1: "split_ws (normalise_command ''nano notes.txt'') \<noteq> []"
    and h2: "split_ws (normalise_command ''nano notes.txt'') ! 0 = ''nano''"
    using te by simp_all
  have h3: "split_ws (normalise_command ''vi notes.txt'') \<noteq> []"
    and h4: "split_ws (normalise_command ''vi notes.txt'') ! 0 \<in> {''nano'', ''vi''}"
    using tu by simp_all
  have l: "2 \<le> length (split_ws (normalise_command ''vi notes.txt''))"
    "2 \<le> length (split_ws (normalise_command ''nano notes.txt''))"
    using te tu by simp_all
  show ?thesis
    using editor_rule_second_token [OF h1 h2 h3 h4] h1 h2 h3 h4 l by blast
qed

text \<open>
  C4. The tolerance for \<open>ls\<close> and \<open>history\<close> goes one way. When the normalised expected
  command is exactly \<open>ls\<close> (or \<open>history\<close>) and the first token of the normalised input is
  \<open>ls\<close> (or \<open>history\<close>), \<open>check_command\<close> returns true whatever arguments follow in the
  input. When the expected command is \<open>ls\<close> (or \<open>history\<close>) followed by arguments, the bare
  input \<open>ls\<close> (or \<open>history\<close>) does not match. The four examples of the specification hold.
\<close>

theorem listing_history_tolerance_one_directional:
  "(normalise_command e = ''ls'' \<and> split_ws (normalise_command u) \<noteq> []
      \<and> split_ws (normalise_command u) ! 0 = ''ls'' \<longrightarrow> check_command u (Some e))
   \<and> (normalise_command e = ''history'' \<and> split_ws (normalise_command u) \<noteq> []
      \<and> split_ws (normalise_command u) ! 0 = ''history'' \<longrightarrow> check_command u (Some e))
   \<and> (split_ws (normalise_command e) \<noteq> [] \<and> split_ws (normalise_command e) ! 0 = ''ls''
      \<and> 1 < length (split_ws (normalise_command e)) \<and> normalise_command u = ''ls''
      \<longrightarrow> \<not> check_command u (Some e))
   \<and> (split_ws (normalise_command e) \<noteq> [] \<and> split_ws (normalise_command e) ! 0 = ''history''
      \<and> 1 < length (split_ws (normalise_command e)) \<and> normalise_command u = ''history''
      \<longrightarrow> \<not> check_command u (Some e))
   \<and> check_command ''ls -la'' (Some ''ls'') = True
   \<and> check_command ''ls'' (Some ''ls -la'') = False
   \<and> check_command ''history 5'' (Some ''history'') = True
   \<and> check_command ''history'' (Some ''history 5'') = False"
proof -
  have a: "check_command u (Some e)"
    if "normalise_command e = ''ls''" "split_ws u \<noteq> []" "split_ws u ! 0 = ''ls''"
  proof -
    have "e \<noteq> []" using that(1) normalise_Nil_imp [of e] by simp
    then show ?thesis using that by (simp add: check_command_unfold)
  qed
  have b: "check_command u (Some e)"
    if "normalise_command e = ''history''" "split_ws u \<noteq> []" "split_ws u ! 0 = ''history''"
  proof -
    have "e \<noteq> []" using that(1) normalise_Nil_imp [of e] by simp
    then show ?thesis using that by (simp add: check_command_unfold)
  qed
  have bare: "\<not> check_command u (Some e)"
    if e: "split_ws e \<noteq> []" "split_ws e ! 0 = c" "1 < length (split_ws e)"
      and u: "normalise_command u = c" and c: "c = ''ls'' \<or> c = ''history''" for c
  proof -
    have su: "split_ws u = [c]"
      using c u split_ws_normalise [of u] by (auto simp: split_ws_ls split_ws_history)
    have "normalise_command e = normalise_command u \<Longrightarrow> split_ws e = split_ws u"
      by (metis split_ws_normalise)
    then have ne: "normalise_command u \<noteq> normalise_command e"
      using su e(3) by auto
    have n1: "normalise_command e \<noteq> ''ls''"
    proof
      assume "normalise_command e = ''ls''"
      then have "split_ws (normalise_command e) = [''ls'']" by (simp add: split_ws_ls)
      then have "split_ws e = [''ls'']" by (simp only: split_ws_normalise)
      then show False using e(3) by simp
    qed
    have n2: "normalise_command e \<noteq> ''history''"
    proof
      assume "normalise_command e = ''history''"
      then have "split_ws (normalise_command e) = [''history'']" by (simp add: split_ws_history)
      then have "split_ws e = [''history'']" by (simp only: split_ws_normalise)
      then show False using e(3) by simp
    qed
    have n3: "split_ws e ! 0 \<noteq> ''nano''" using e(2) c by auto
    show ?thesis using ne n1 n2 n3 by (simp add: check_command_unfold)
  qed
  have c1: "split_ws e \<noteq> [] \<and> split_ws e ! 0 = ''ls'' \<and> 1 < length (split_ws e)
      \<and> normalise_command u = ''ls'' \<longrightarrow> \<not> check_command u (Some e)"
    using bare [of "''ls''"] by blast
  have c2: "split_ws e \<noteq> [] \<and> split_ws e ! 0 = ''history'' \<and> 1 < length (split_ws e)
      \<and> normalise_command u = ''history'' \<longrightarrow> \<not> check_command u (Some e)"
    using bare [of "''history''"] by blast
  have x1: "check_command ''ls -la'' (Some ''ls'') = True" by code_simp
  have x2: "check_command ''ls'' (Some ''ls -la'') = False" by code_simp
  have x3: "check_command ''history 5'' (Some ''history'') = True" by code_simp
  have x4: "check_command ''history'' (Some ''history 5'') = False" by code_simp
  show ?thesis
    unfolding split_ws_normalise using a b c1 c2 x1 x2 x3 x4 by blast
qed

text \<open>
  C10. Rule 4 compares the second tokens only. When the normalised expected command starts
  with \<open>nano\<close> and has at least two tokens, and the normalised input starts with \<open>nano\<close> or
  \<open>vi\<close> and has at least two tokens, \<open>check_command\<close> returns true whenever the second
  tokens are equal, whatever tokens follow; so \<open>vi notes.txt -w\<close> matches
  \<open>nano notes.txt\<close>.
\<close>

theorem editor_rule_ignores_later_tokens:
  assumes "split_ws (normalise_command e) \<noteq> []"
    and "split_ws (normalise_command e) ! 0 = ''nano''"
    and "2 \<le> length (split_ws (normalise_command e))"
    and "split_ws (normalise_command u) \<noteq> []"
    and "split_ws (normalise_command u) ! 0 \<in> {''nano'', ''vi''}"
    and "2 \<le> length (split_ws (normalise_command u))"
    and "split_ws (normalise_command u) ! 1 = split_ws (normalise_command e) ! 1"
  shows "check_command u (Some e)
         \<and> check_command ''vi notes.txt -w'' (Some ''nano notes.txt'') = True"
proof -
  have e: "split_ws e \<noteq> []" "split_ws e ! 0 = ''nano''" "1 < length (split_ws e)"
    and u: "split_ws u \<noteq> []" "split_ws u ! 0 = ''nano'' \<or> split_ws u ! 0 = ''vi''"
      "1 < length (split_ws u)"
    and eq: "split_ws e ! 1 = split_ws u ! 1"
    using assms by (simp_all add: split_ws_normalise)
  have ne: "e \<noteq> []" using e(1) by (auto simp: split_ws_Nil)
  have 1: "check_command u (Some e)"
    using e u eq ne by (simp add: check_command_unfold)
  have 2: "check_command ''vi notes.txt -w'' (Some ''nano notes.txt'') = True" by code_simp
  show ?thesis using 1 2 by simp
qed

text \<open>C10 at the input \<open>vi notes.txt -w\<close>, whose third token the expected command lacks.\<close>

theorem editor_rule_ignores_later_tokens_witness:
  "split_ws (normalise_command ''vi notes.txt -w'') = [''vi'', ''notes.txt'', ''-w'']
   \<and> split_ws (normalise_command ''nano notes.txt'') = [''nano'', ''notes.txt'']
   \<and> check_command ''vi notes.txt -w'' (Some ''nano notes.txt'')"
proof -
  have te: "split_ws (normalise_command ''nano notes.txt'') = [''nano'', ''notes.txt'']"
    by code_simp
  have tu: "split_ws (normalise_command ''vi notes.txt -w'') = [''vi'', ''notes.txt'', ''-w'']"
    by code_simp
  have h1: "split_ws (normalise_command ''nano notes.txt'') \<noteq> []"
    and h2: "split_ws (normalise_command ''nano notes.txt'') ! 0 = ''nano''"
    and h3: "2 \<le> length (split_ws (normalise_command ''nano notes.txt''))"
    using te by simp_all
  have h4: "split_ws (normalise_command ''vi notes.txt -w'') \<noteq> []"
    and h5: "split_ws (normalise_command ''vi notes.txt -w'') ! 0 \<in> {''nano'', ''vi''}"
    and h6: "2 \<le> length (split_ws (normalise_command ''vi notes.txt -w''))"
    using tu by simp_all
  have h7: "split_ws (normalise_command ''vi notes.txt -w'') ! 1
            = split_ws (normalise_command ''nano notes.txt'') ! 1"
    using te tu by simp
  show ?thesis
    using editor_rule_ignores_later_tokens [OF h1 h2 h3 h4 h5 h6 h7] te tu by blast
qed


text \<open>C4 at four inputs, one for each of its implications.\<close>

theorem listing_history_tolerance_one_directional_witness:
  "normalise_command '' ls '' = ''ls''
   \<and> split_ws (normalise_command ''ls  -l /tmp'') = [''ls'', ''-l'', ''/tmp'']
   \<and> check_command ''ls  -l /tmp'' (Some '' ls '')
   \<and> normalise_command ''history'' = ''history''
   \<and> split_ws (normalise_command ''history 20'') = [''history'', ''20'']
   \<and> check_command ''history 20'' (Some ''history'')
   \<and> split_ws (normalise_command ''ls -l'') = [''ls'', ''-l'']
   \<and> \<not> check_command '' ls '' (Some ''ls -l'')
   \<and> split_ws (normalise_command ''history 10'') = [''history'', ''10'']
   \<and> \<not> check_command ''history'' (Some ''history 10'')"
proof -
  have a1: "normalise_command '' ls '' = ''ls''" by code_simp
  have a2: "split_ws (normalise_command ''ls  -l /tmp'') = [''ls'', ''-l'', ''/tmp'']"
    by code_simp
  have a: "check_command ''ls  -l /tmp'' (Some '' ls '')"
    using listing_history_tolerance_one_directional [of "'' ls ''" "''ls  -l /tmp''"] a1 a2
    by simp
  have b1: "normalise_command ''history'' = ''history''" by code_simp
  have b2: "split_ws (normalise_command ''history 20'') = [''history'', ''20'']"
    by code_simp
  have b: "check_command ''history 20'' (Some ''history'')"
    using listing_history_tolerance_one_directional [of "''history''" "''history 20''"] b1 b2
    by simp
  have c1: "split_ws (normalise_command ''ls -l'') = [''ls'', ''-l'']" by code_simp
  have c: "\<not> check_command '' ls '' (Some ''ls -l'')"
    using listing_history_tolerance_one_directional [of "''ls -l''" "'' ls ''"] a1 c1
    by simp
  have d1: "split_ws (normalise_command ''history 10'') = [''history'', ''10'']" by code_simp
  have d: "\<not> check_command ''history'' (Some ''history 10'')"
    using listing_history_tolerance_one_directional [of "''history 10''" "''history''"] b1 d1
    by simp
  show ?thesis using a1 a2 a b1 b2 b c1 c d1 d by simp
qed

section \<open>Facts about the session loop\<close>

lemma split_ws_strip_Nil_iff: "split_ws (strip x) = [] \<longleftrightarrow> strip x = []"
proof
  assume a: "split_ws (strip x) = []"
  show "strip x = []"
  proof (rule ccontr)
    assume n: "strip x \<noteq> []"
    then have "\<not> is_space (hd (strip x))" using strip_ends [of x] by simp
    moreover have "hd (strip x) \<in> set (strip x)" using n by simp
    ultimately show False using a by (auto simp: split_ws_def split_scan_Nil_iff)
  qed
next
  assume "strip x = []"
  then show "split_ws (strip x) = []" by (simp add: split_ws_def)
qed

lemma base_of_strip:
  "base_of (strip raw) = Inr (case split_ws (strip raw) of [] \<Rightarrow> [] | b # _ \<Rightarrow> b)"
  using split_ws_strip_Nil_iff [of raw]
  by (cases "split_ws (strip raw)") (auto simp: base_of_def)

lemma next_level_fields:
  "levels (next_level s) = levels s" "idx (next_level s) = idx s"
  "checked (next_level s) = checked s" "executed (next_level s) = executed s"
  "log (next_level s) = log s" "log_open (next_level s) = log_open s"
  by (simp_all add: next_level_def Let_def)

lemma next_level_out: "\<exists>tail. out (next_level s) = out s @ tail"
  by (simp add: next_level_def Let_def)

lemma next_level_phase:
  "phase (next_level s) =
     (if idx s < length (levels s) then AwaitingInput else Terminated All_levels_done)"
  by (simp add: next_level_def Let_def)

lemma on_input_quit:
  assumes "lower (strip raw) \<in> {''exit'', ''quit''}"
  shows "on_input run s raw =
     s\<lparr>log := log s @ [Level_input (number (levels s ! idx s)) (strip raw), User_exited],
        out := out s @ [Goodbye], phase := Terminated Quit\<rparr>"
  using assms by (simp add: on_input_def Let_def)

lemma on_input_hint:
  assumes "lower (strip raw) = ''hint''"
  shows "on_input run s raw =
     s\<lparr>log := log s @ [Level_input (number (levels s ! idx s)) (strip raw)],
        out := out s @ [if hint (levels s ! idx s) \<noteq> [] then Hint (hint (levels s ! idx s))
                        else No_hint]\<rparr>"
  using assms by (simp add: on_input_def Let_def)

lemma on_input_wrong:
  assumes "lower (strip raw) \<notin> {''exit'', ''quit'', ''hint''}"
    and "\<not> check_command (strip raw) (expected_command (levels s ! idx s))"
  shows "on_input run s raw =
     s\<lparr>log := log s @ [Level_input (number (levels s ! idx s)) (strip raw)],
        checked := checked s @ [(strip raw, expected_command (levels s ! idx s))],
        out := out s @ [Incorrect]\<rparr>"
  using assms by (simp add: on_input_def Let_def)

lemma on_input_solved:
  assumes "lower (strip raw) \<notin> {''exit'', ''quit'', ''hint''}"
    and "check_command (strip raw) (expected_command (levels s ! idx s))"
  shows "on_input run s raw =
     next_level
      (s\<lparr>log := log s @ [Level_input (number (levels s ! idx s)) (strip raw)],
         checked := checked s @ [(strip raw, expected_command (levels s ! idx s))],
         executed := executed s
           @ (if (case split_ws (strip raw) of [] \<Rightarrow> [] | b # _ \<Rightarrow> b) \<in> safe_commands
              then [split_ws (strip raw)] else []),
         out := out s @ [Correct]
           @ (if (case split_ws (strip raw) of [] \<Rightarrow> [] | b # _ \<Rightarrow> b) \<in> safe_commands
              then shown (run (split_ws (strip raw))) else [Execution_skipped])
           @ [Blank_line],
         idx := idx s + 1\<rparr>)"
  using assms by (simp add: on_input_def Let_def base_of_strip demonstrate_def)

lemma on_input_levels: "levels (on_input run s raw) = levels s"
proof -
  consider "lower (strip raw) \<in> {''exit'', ''quit''}" | "lower (strip raw) = ''hint''"
    | "lower (strip raw) \<notin> {''exit'', ''quit'', ''hint''}"
      "\<not> check_command (strip raw) (expected_command (levels s ! idx s))"
    | "lower (strip raw) \<notin> {''exit'', ''quit'', ''hint''}"
      "check_command (strip raw) (expected_command (levels s ! idx s))"
    by blast
  then show ?thesis
  proof cases
    case 1 then show ?thesis by (simp add: on_input_quit)
  next
    case 2 then show ?thesis by (simp add: on_input_hint)
  next
    case 3 then show ?thesis by (simp add: on_input_wrong)
  next
    case 4 then show ?thesis by (simp add: on_input_solved next_level_fields)
  qed
qed

lemma on_input_idx:
  "idx (on_input run s raw) =
     (if lower (strip raw) \<notin> {''exit'', ''quit'', ''hint''}
         \<and> check_command (strip raw) (expected_command (levels s ! idx s))
      then idx s + 1 else idx s)"
proof -
  consider "lower (strip raw) \<in> {''exit'', ''quit''}" | "lower (strip raw) = ''hint''"
    | "lower (strip raw) \<notin> {''exit'', ''quit'', ''hint''}"
      "\<not> check_command (strip raw) (expected_command (levels s ! idx s))"
    | "lower (strip raw) \<notin> {''exit'', ''quit'', ''hint''}"
      "check_command (strip raw) (expected_command (levels s ! idx s))"
    by blast
  then show ?thesis
  proof cases
    case 1 then show ?thesis by (auto simp: on_input_quit)
  next
    case 2 then show ?thesis by (simp add: on_input_hint)
  next
    case 3 then show ?thesis by (simp add: on_input_wrong)
  next
    case 4 then show ?thesis by (simp add: on_input_solved next_level_fields)
  qed
qed

lemma states_levels: "t \<in> set (states run s inputs) \<Longrightarrow> levels t = levels s"
  by (induction inputs arbitrary: s) (auto simp: on_input_levels split: if_splits)

lemma states_idx_lower: "t \<in> set (states run s inputs) \<Longrightarrow> idx s \<le> idx t"
proof (induction inputs arbitrary: s)
  case Nil
  then show ?case by (auto split: if_splits)
next
  case (Cons raw rest)
  show ?case
  proof (cases "t = s \<or> phase s \<noteq> AwaitingInput")
    case True
    then show ?thesis using Cons.prems by (auto split: if_splits)
  next
    case False
    then have "t \<in> set (states run (on_input run s raw) rest)"
      using Cons.prems by (auto split: if_splits)
    then have "idx (on_input run s raw) \<le> idx t" by (rule Cons.IH)
    moreover have "idx s \<le> idx (on_input run s raw)" by (simp add: on_input_idx)
    ultimately show ?thesis by simp
  qed
qed

lemma states_sorted: "sorted (map idx (states run s inputs))"
proof (induction inputs arbitrary: s)
  case Nil
  show ?case by simp
next
  case (Cons raw rest)
  have "\<forall>t\<in>set (states run (on_input run s raw) rest). idx s \<le> idx t"
  proof
    fix t assume "t \<in> set (states run (on_input run s raw) rest)"
    then have "idx (on_input run s raw) \<le> idx t" by (rule states_idx_lower)
    moreover have "idx s \<le> idx (on_input run s raw)" by (simp add: on_input_idx)
    ultimately show "idx s \<le> idx t" by simp
  qed
  then show ?case using Cons.IH [of "on_input run s raw"] by simp
qed

lemma states_last: "last (states run s inputs) = loop run s inputs"
proof (induction inputs arbitrary: s)
  case Nil
  show ?case by simp
next
  case (Cons raw rest)
  have "states run (on_input run s raw) rest \<noteq> []"
    by (cases rest) simp_all
  then show ?case using Cons.IH [of "on_input run s raw"] by simp
qed

lemma loop_levels: "levels (loop run s inputs) = levels s"
  by (induction inputs arbitrary: s) (simp_all add: on_input_levels)

lemma loop_terminated: "phase (loop run s inputs) \<noteq> AwaitingInput"
  by (induction inputs arbitrary: s) simp_all

lemma main_levels: "levels (main run t0 t1 lvls inputs) = lvls"
  by (simp add: main_def Let_def finalize_def loop_levels next_level_fields opened_def)

lemma main_finalizes:
  "lvls \<noteq> [] \<Longrightarrow>
     log_open (main run t0 t1 lvls inputs) = False
     \<and> last (log (main run t0 t1 lvls inputs)) = Session_ended t1
     \<and> phase (main run t0 t1 lvls inputs) \<noteq> AwaitingInput"
  by (simp add: main_def Let_def finalize_def loop_terminated)

section \<open>Claims about the session runner\<close>

text \<open>
  C2, on the path where no level was loaded. \<^verbatim>\<open>main\<close> then writes the start entry and
  the line that no levels were loaded, closes the log and returns: the log is closed, but
  it holds no session-end entry with a timestamp, which only the \<^verbatim>\<open>finally\<close> block
  writes (see \<open>main_finalizes\<close> for the sessions that enter the loop).
\<close>

theorem no_levels_session_has_no_end_entry:
  "log (main run t0 t1 [] inputs) = [Session_started t0, No_levels_loaded]
   \<and> log_open (main run t0 t1 [] inputs) = False
   \<and> phase (main run t0 t1 [] inputs) = Terminated No_levels
   \<and> Session_ended t \<notin> set (log (main run t0 t1 [] inputs))"
  by (simp add: main_def Let_def opened_def)

text \<open>
  C7. In every state of the loop the input is classified before it is matched; the input
  is the line read, stripped, as \<^verbatim>\<open>main\<close> names it. An input that is \<open>exit\<close> or
  \<open>quit\<close> in any letter case ends the session at once: the state after it is the state
  before it with the input and the exit logged, the farewell printed and the session
  terminated, no later line is read, and nothing of that state depends on
  \<open>check_command\<close>, which is not called. An input that is \<open>hint\<close> in any letter case
  logs the input and prints the hint of the level, or the fallback message when the level
  has none, and changes nothing else: the level index and the state of the loop stay as
  they were and \<open>check_command\<close> is not called. Every other input is passed to
  \<open>check_command\<close> with the expected command of the current level, and its verdict
  decides the outcome: accepted, the level is passed and the index advances by one;
  rejected, the retry message is printed and the index and the state of the loop stay.
\<close>

theorem classification_precedes_matching:
  "(lower (strip raw) \<in> {''exit'', ''quit''} \<longrightarrow>
      on_input run s raw =
        s\<lparr>log := log s @ [Level_input (number (levels s ! idx s)) (strip raw), User_exited],
           out := out s @ [Goodbye], phase := Terminated Quit\<rparr>
      \<and> phase (on_input run s raw) = Terminated Quit
      \<and> checked (on_input run s raw) = checked s
      \<and> idx (on_input run s raw) = idx s
      \<and> (phase s = AwaitingInput \<longrightarrow> loop run s (raw # rest) = on_input run s raw))
   \<and> (lower (strip raw) = ''hint'' \<longrightarrow>
      on_input run s raw =
        s\<lparr>log := log s @ [Level_input (number (levels s ! idx s)) (strip raw)],
           out := out s @ [if hint (levels s ! idx s) \<noteq> [] then Hint (hint (levels s ! idx s))
                           else No_hint]\<rparr>
      \<and> phase (on_input run s raw) = phase s
      \<and> checked (on_input run s raw) = checked s
      \<and> idx (on_input run s raw) = idx s
      \<and> out (on_input run s raw) =
          out s @ [if hint (levels s ! idx s) \<noteq> [] then Hint (hint (levels s ! idx s))
                   else No_hint])
   \<and> (lower (strip raw) \<notin> {''exit'', ''quit'', ''hint''} \<longrightarrow>
      checked (on_input run s raw) =
        checked s @ [(strip raw, expected_command (levels s ! idx s))]
      \<and> log (on_input run s raw) =
          log s @ [Level_input (number (levels s ! idx s)) (strip raw)]
      \<and> (check_command (strip raw) (expected_command (levels s ! idx s)) \<longrightarrow>
          on_input run s raw =
            next_level
             (s\<lparr>log := log s @ [Level_input (number (levels s ! idx s)) (strip raw)],
                checked := checked s @ [(strip raw, expected_command (levels s ! idx s))],
                executed := executed s
                  @ (if (case split_ws (strip raw) of [] \<Rightarrow> [] | b # _ \<Rightarrow> b) \<in> safe_commands
                     then [split_ws (strip raw)] else []),
                out := out s @ [Correct]
                  @ (if (case split_ws (strip raw) of [] \<Rightarrow> [] | b # _ \<Rightarrow> b) \<in> safe_commands
                     then shown (run (split_ws (strip raw))) else [Execution_skipped])
                  @ [Blank_line],
                idx := idx s + 1\<rparr>)
          \<and> idx (on_input run s raw) = idx s + 1
          \<and> (\<exists>tail. out (on_input run s raw) = out s @ [Correct] @ tail))
      \<and> (\<not> check_command (strip raw) (expected_command (levels s ! idx s)) \<longrightarrow>
          on_input run s raw =
            s\<lparr>log := log s @ [Level_input (number (levels s ! idx s)) (strip raw)],
               checked := checked s @ [(strip raw, expected_command (levels s ! idx s))],
               out := out s @ [Incorrect]\<rparr>
          \<and> idx (on_input run s raw) = idx s
          \<and> phase (on_input run s raw) = phase s
          \<and> out (on_input run s raw) = out s @ [Incorrect]))"
proof -
  have q: "on_input run s raw =
        s\<lparr>log := log s @ [Level_input (number (levels s ! idx s)) (strip raw), User_exited],
           out := out s @ [Goodbye], phase := Terminated Quit\<rparr>
      \<and> phase (on_input run s raw) = Terminated Quit
      \<and> checked (on_input run s raw) = checked s
      \<and> idx (on_input run s raw) = idx s
      \<and> (phase s = AwaitingInput \<longrightarrow> loop run s (raw # rest) = on_input run s raw)"
    if "lower (strip raw) \<in> {''exit'', ''quit''}"
  proof -
    have 0: "on_input run s raw =
        s\<lparr>log := log s @ [Level_input (number (levels s ! idx s)) (strip raw), User_exited],
           out := out s @ [Goodbye], phase := Terminated Quit\<rparr>"
      using that by (rule on_input_quit)
    have 1: "phase (on_input run s raw) = Terminated Quit"
      "checked (on_input run s raw) = checked s" "idx (on_input run s raw) = idx s"
      unfolding 0 by simp_all
    have "loop run (on_input run s raw) rest = on_input run s raw"
      using 1(1) by (cases rest) simp_all
    then have 2: "phase s = AwaitingInput \<longrightarrow> loop run s (raw # rest) = on_input run s raw"
      by simp
    show ?thesis using 0 1 2 by (simp only: simp_thms)
  qed
  have h: "on_input run s raw =
        s\<lparr>log := log s @ [Level_input (number (levels s ! idx s)) (strip raw)],
           out := out s @ [if hint (levels s ! idx s) \<noteq> [] then Hint (hint (levels s ! idx s))
                           else No_hint]\<rparr>
      \<and> phase (on_input run s raw) = phase s
      \<and> checked (on_input run s raw) = checked s
      \<and> idx (on_input run s raw) = idx s
      \<and> out (on_input run s raw) =
          out s @ [if hint (levels s ! idx s) \<noteq> [] then Hint (hint (levels s ! idx s))
                   else No_hint]"
    if "lower (strip raw) = ''hint''"
  proof -
    have 0: "on_input run s raw =
        s\<lparr>log := log s @ [Level_input (number (levels s ! idx s)) (strip raw)],
           out := out s @ [if hint (levels s ! idx s) \<noteq> [] then Hint (hint (levels s ! idx s))
                           else No_hint]\<rparr>"
      using that by (rule on_input_hint)
    have 1: "phase (on_input run s raw) = phase s"
      "checked (on_input run s raw) = checked s" "idx (on_input run s raw) = idx s"
      "out (on_input run s raw) =
          out s @ [if hint (levels s ! idx s) \<noteq> [] then Hint (hint (levels s ! idx s))
                   else No_hint]"
      unfolding 0 by simp_all
    show ?thesis using 0 1 by (simp only: simp_thms)
  qed
  have a: "on_input run s raw =
            next_level
             (s\<lparr>log := log s @ [Level_input (number (levels s ! idx s)) (strip raw)],
                checked := checked s @ [(strip raw, expected_command (levels s ! idx s))],
                executed := executed s
                  @ (if (case split_ws (strip raw) of [] \<Rightarrow> [] | b # _ \<Rightarrow> b) \<in> safe_commands
                     then [split_ws (strip raw)] else []),
                out := out s @ [Correct]
                  @ (if (case split_ws (strip raw) of [] \<Rightarrow> [] | b # _ \<Rightarrow> b) \<in> safe_commands
                     then shown (run (split_ws (strip raw))) else [Execution_skipped])
                  @ [Blank_line],
                idx := idx s + 1\<rparr>)
          \<and> idx (on_input run s raw) = idx s + 1
          \<and> (\<exists>tail. out (on_input run s raw) = out s @ [Correct] @ tail)
          \<and> checked (on_input run s raw) =
              checked s @ [(strip raw, expected_command (levels s ! idx s))]
          \<and> log (on_input run s raw) =
              log s @ [Level_input (number (levels s ! idx s)) (strip raw)]"
    if n: "lower (strip raw) \<notin> {''exit'', ''quit'', ''hint''}"
      and c: "check_command (strip raw) (expected_command (levels s ! idx s))"
  proof -
    let ?t = "s\<lparr>log := log s @ [Level_input (number (levels s ! idx s)) (strip raw)],
                checked := checked s @ [(strip raw, expected_command (levels s ! idx s))],
                executed := executed s
                  @ (if (case split_ws (strip raw) of [] \<Rightarrow> [] | b # _ \<Rightarrow> b) \<in> safe_commands
                     then [split_ws (strip raw)] else []),
                out := out s @ [Correct]
                  @ (if (case split_ws (strip raw) of [] \<Rightarrow> [] | b # _ \<Rightarrow> b) \<in> safe_commands
                     then shown (run (split_ws (strip raw))) else [Execution_skipped])
                  @ [Blank_line],
                idx := idx s + 1\<rparr>"
    have 0: "on_input run s raw = next_level ?t"
      using n c by (rule on_input_solved)
    obtain tl where tl: "out (next_level ?t) = out ?t @ tl"
      using next_level_out [of ?t] by blast
    have 1: "idx (on_input run s raw) = idx s + 1"
      "checked (on_input run s raw) =
         checked s @ [(strip raw, expected_command (levels s ! idx s))]"
      "log (on_input run s raw) =
         log s @ [Level_input (number (levels s ! idx s)) (strip raw)]"
      unfolding 0 by (simp_all add: next_level_fields)
    have "out (on_input run s raw) = out s @ [Correct]
        @ ((if (case split_ws (strip raw) of [] \<Rightarrow> [] | b # _ \<Rightarrow> b) \<in> safe_commands
            then shown (run (split_ws (strip raw))) else [Execution_skipped])
           @ [Blank_line] @ tl)"
      unfolding 0 tl by simp
    then have 2: "\<exists>tail. out (on_input run s raw) = out s @ [Correct] @ tail"
      by (rule exI)
    show ?thesis using 0 1 2 by (simp only: simp_thms)
  qed
  have w: "on_input run s raw =
            s\<lparr>log := log s @ [Level_input (number (levels s ! idx s)) (strip raw)],
               checked := checked s @ [(strip raw, expected_command (levels s ! idx s))],
               out := out s @ [Incorrect]\<rparr>
          \<and> idx (on_input run s raw) = idx s
          \<and> phase (on_input run s raw) = phase s
          \<and> out (on_input run s raw) = out s @ [Incorrect]
          \<and> checked (on_input run s raw) =
              checked s @ [(strip raw, expected_command (levels s ! idx s))]
          \<and> log (on_input run s raw) =
              log s @ [Level_input (number (levels s ! idx s)) (strip raw)]"
    if n: "lower (strip raw) \<notin> {''exit'', ''quit'', ''hint''}"
      and c: "\<not> check_command (strip raw) (expected_command (levels s ! idx s))"
  proof -
    have 0: "on_input run s raw =
            s\<lparr>log := log s @ [Level_input (number (levels s ! idx s)) (strip raw)],
               checked := checked s @ [(strip raw, expected_command (levels s ! idx s))],
               out := out s @ [Incorrect]\<rparr>"
      using n c by (rule on_input_wrong)
    have 1: "idx (on_input run s raw) = idx s" "phase (on_input run s raw) = phase s"
      "out (on_input run s raw) = out s @ [Incorrect]"
      "checked (on_input run s raw) =
              checked s @ [(strip raw, expected_command (levels s ! idx s))]"
      "log (on_input run s raw) =
              log s @ [Level_input (number (levels s ! idx s)) (strip raw)]"
      unfolding 0 by simp_all
    show ?thesis using 0 1 by (simp only: simp_thms)
  qed
  show ?thesis using q h a w by blast
qed

text \<open>
  C8. For an input that is neither a quit nor a hint request: the level index advances by
  one exactly when \<open>check_command\<close> accepts the input, whatever \<^verbatim>\<open>subprocess.run\<close> does
  (return any exit status or raise); the input is executed exactly when it is accepted and
  its first token is one of \<open>pwd\<close>, \<open>ls\<close>, \<open>whoami\<close>, \<open>echo\<close>, \<open>clear\<close>, \<open>date\<close>,
  \<open>history\<close>; an accepted input outside that list is reported as skipped; and after an
  accepted input the session awaits the next level's input or has completed all levels.
\<close>

theorem execution_only_for_allow_listed_and_never_blocks:
  assumes "lower (strip raw) \<notin> {''exit'', ''quit'', ''hint''}"
  shows "idx (on_input run s raw) =
           (if check_command (strip raw) (expected_command (levels s ! idx s))
            then idx s + 1 else idx s)
         \<and> executed (on_input run s raw) =
             executed s
             @ (if check_command (strip raw) (expected_command (levels s ! idx s))
                   \<and> (case split_ws (strip raw) of [] \<Rightarrow> [] | b # _ \<Rightarrow> b) \<in> safe_commands
                then [split_ws (strip raw)] else [])
         \<and> (check_command (strip raw) (expected_command (levels s ! idx s)) \<longrightarrow>
             (\<exists>tail. out (on_input run s raw) =
                out s @ [Correct]
                @ (if (case split_ws (strip raw) of [] \<Rightarrow> [] | b # _ \<Rightarrow> b) \<in> safe_commands
                   then shown (run (split_ws (strip raw))) else [Execution_skipped])
                @ [Blank_line] @ tail)
             \<and> phase (on_input run s raw) =
                 (if idx s + 1 < length (levels s) then AwaitingInput
                  else Terminated All_levels_done))
         \<and> safe_commands = {''pwd'', ''ls'', ''whoami'', ''echo'', ''clear'', ''date'', ''history''}"
proof (cases "check_command (strip raw) (expected_command (levels s ! idx s))")
  case True
  let ?t = "s\<lparr>log := log s @ [Level_input (number (levels s ! idx s)) (strip raw)],
         checked := checked s @ [(strip raw, expected_command (levels s ! idx s))],
         executed := executed s
           @ (if (case split_ws (strip raw) of [] \<Rightarrow> [] | b # _ \<Rightarrow> b) \<in> safe_commands
              then [split_ws (strip raw)] else []),
         out := out s @ [Correct]
           @ (if (case split_ws (strip raw) of [] \<Rightarrow> [] | b # _ \<Rightarrow> b) \<in> safe_commands
              then shown (run (split_ws (strip raw))) else [Execution_skipped])
           @ [Blank_line],
         idx := idx s + 1\<rparr>"
  have eq: "on_input run s raw = next_level ?t"
    using assms True by (rule on_input_solved)
  obtain tail where tail: "out (next_level ?t) = out ?t @ tail"
    using next_level_out [of ?t] by blast
  have 1: "idx (on_input run s raw) = idx s + 1"
    unfolding eq by (simp add: next_level_fields)
  have 2: "executed (on_input run s raw) = executed s
      @ (if (case split_ws (strip raw) of [] \<Rightarrow> [] | b # _ \<Rightarrow> b) \<in> safe_commands
         then [split_ws (strip raw)] else [])"
    unfolding eq by (simp add: next_level_fields)
  have 3: "out (on_input run s raw) = out s @ [Correct]
      @ (if (case split_ws (strip raw) of [] \<Rightarrow> [] | b # _ \<Rightarrow> b) \<in> safe_commands
         then shown (run (split_ws (strip raw))) else [Execution_skipped])
      @ [Blank_line] @ tail"
    unfolding eq tail by simp
  have 4: "phase (on_input run s raw) =
      (if idx s + 1 < length (levels s) then AwaitingInput else Terminated All_levels_done)"
    unfolding eq by (simp add: next_level_phase)
  show ?thesis using True 1 2 3 4 by (simp add: safe_commands_def)
next
  case False
  then show ?thesis using assms by (simp add: on_input_wrong safe_commands_def)
qed

text \<open>
  C9. No step of the loop changes the list of levels, and no step lowers the level index:
  this holds for one pass of the loop body, for every state that a run of the loop goes
  through, whose last state is the result of the loop, and the levels at the end of
  \<^verbatim>\<open>main\<close> are the levels that were loaded.
\<close>

theorem levels_fixed_index_monotone:
  "levels (on_input run s raw) = levels s
   \<and> idx s \<le> idx (on_input run s raw)
   \<and> (\<forall>t\<in>set (states run s inputs). levels t = levels s)
   \<and> sorted (map idx (states run s inputs))
   \<and> last (states run s inputs) = loop run s inputs
   \<and> levels (main run t0 t1 lvls inputs) = lvls"
  using states_levels [of _ run s inputs]
  by (simp add: on_input_levels on_input_idx states_sorted states_last main_levels)

section \<open>The claims on the example session\<close>

lemma example_session_fields:
  "phase example_session = AwaitingInput" "checked example_session = []"
  "executed example_session = []" "idx example_session = 0"
  "levels example_session = example_levels"
  by (simp_all add: example_session_def example_levels_def opened_def next_level_def)

lemma example_first_level:
  "hint (levels example_session ! idx example_session) = []"
  "expected_command (levels example_session ! idx example_session) = Some ''pwd''"
  "hint (example_levels ! 0) = []"
  "expected_command (example_levels ! 0) = Some ''pwd''"
  "length example_levels = 2"
  by (simp_all add: example_session_fields example_levels_def)

text \<open>
  C8 at the first level of the example with the input \<open>pwd\<close>: the level is passed both
  when the command ends with exit status 1 and when running it raises.
\<close>

theorem execution_only_for_allow_listed_and_never_blocks_witness:
  "lower (strip ''pwd'') \<notin> {''exit'', ''quit'', ''hint''}
   \<and> check_command (strip ''pwd'') (Some ''pwd'')
   \<and> idx (on_input (\<lambda>_. Completed_process 1 [] ''boom'') example_session ''pwd'') = 1
   \<and> executed (on_input (\<lambda>_. Completed_process 1 [] ''boom'') example_session ''pwd'')
       = [[''pwd'']]
   \<and> idx (on_input (\<lambda>_. Run_raised) example_session ''pwd'') = 1"
proof -
  have p0: "lower (strip ''pwd'') = ''pwd''" by code_simp
  have p1: "strip ''pwd'' = ''pwd''" by code_simp
  have p2: "split_ws ''pwd'' = [''pwd'']" by code_simp
  have p: "lower (strip ''pwd'') \<notin> {''exit'', ''quit'', ''hint''}"
    unfolding p0 by simp
  have c: "check_command (strip ''pwd'') (Some ''pwd'')" by code_simp
  have s: "''pwd'' \<in> safe_commands" by (simp add: safe_commands_def)
  have a: "idx (on_input (\<lambda>_. Completed_process 1 [] ''boom'') example_session ''pwd'') = 1"
    "executed (on_input (\<lambda>_. Completed_process 1 [] ''boom'') example_session ''pwd'')
       = [[''pwd'']]"
    using execution_only_for_allow_listed_and_never_blocks
            [OF p, of "\<lambda>_. Completed_process 1 [] ''boom''" example_session] c s
    by (simp_all add: example_first_level example_session_fields p1 p2)
  have b: "idx (on_input (\<lambda>_. Run_raised) example_session ''pwd'') = 1"
    using execution_only_for_allow_listed_and_never_blocks
            [OF p, of "\<lambda>_. Run_raised" example_session] c
    by (simp add: example_first_level example_session_fields)
  show ?thesis using p c a b by simp
qed


text \<open>
  C7 at the first level of the example, for an upper-case \<open>EXIT\<close> between spaces, for
  \<open>Hint\<close>, for the accepted input \<open>pwd\<close> and for the rejected input \<open>wrong\<close>.
\<close>

theorem classification_precedes_matching_witness:
  "lower (strip '' EXIT '') \<in> {''exit'', ''quit''}
   \<and> phase (on_input (\<lambda>_. Run_raised) example_session '' EXIT '') = Terminated Quit
   \<and> checked (on_input (\<lambda>_. Run_raised) example_session '' EXIT '') = []
   \<and> out (on_input (\<lambda>_. Run_raised) example_session '' EXIT '')
       = out example_session @ [Goodbye]
   \<and> log (on_input (\<lambda>_. Run_raised) example_session '' EXIT '')
       = log example_session @ [Level_input (Some 1) ''EXIT'', User_exited]
   \<and> loop (\<lambda>_. Run_raised) example_session ['' EXIT '', ''pwd'']
       = on_input (\<lambda>_. Run_raised) example_session '' EXIT ''
   \<and> lower (strip ''Hint'') = ''hint''
   \<and> checked (on_input (\<lambda>_. Run_raised) example_session ''Hint'') = []
   \<and> idx (on_input (\<lambda>_. Run_raised) example_session ''Hint'') = 0
   \<and> out (on_input (\<lambda>_. Run_raised) example_session ''Hint'')
       = out example_session @ [No_hint]
   \<and> lower (strip ''pwd'') \<notin> {''exit'', ''quit'', ''hint''}
   \<and> check_command (strip ''pwd'') (Some ''pwd'')
   \<and> checked (on_input (\<lambda>_. Run_raised) example_session ''pwd'') = [(''pwd'', Some ''pwd'')]
   \<and> idx (on_input (\<lambda>_. Run_raised) example_session ''pwd'') = 1
   \<and> lower (strip ''wrong'') \<notin> {''exit'', ''quit'', ''hint''}
   \<and> \<not> check_command (strip ''wrong'') (Some ''pwd'')
   \<and> checked (on_input (\<lambda>_. Run_raised) example_session ''wrong'')
       = [(''wrong'', Some ''pwd'')]
   \<and> idx (on_input (\<lambda>_. Run_raised) example_session ''wrong'') = 0
   \<and> out (on_input (\<lambda>_. Run_raised) example_session ''wrong'')
       = out example_session @ [Incorrect]"
proof -
  have e0: "lower (strip '' EXIT '') = ''exit''" by code_simp
  have e1: "strip '' EXIT '' = ''EXIT''" by code_simp
  have e: "lower (strip '' EXIT '') \<in> {''exit'', ''quit''}"
    unfolding e0 by simp
  have h: "lower (strip ''Hint'') = ''hint''" by code_simp
  have p0: "lower (strip ''pwd'') = ''pwd''" by code_simp
  have p1: "strip ''pwd'' = ''pwd''" by code_simp
  have p: "lower (strip ''pwd'') \<notin> {''exit'', ''quit'', ''hint''}"
    unfolding p0 by simp
  have pc: "check_command (strip ''pwd'') (Some ''pwd'')" by code_simp
  have w0: "lower (strip ''wrong'') = ''wrong''" by code_simp
  have w1: "strip ''wrong'' = ''wrong''" by code_simp
  have w: "lower (strip ''wrong'') \<notin> {''exit'', ''quit'', ''hint''}"
    unfolding w0 by simp
  have wc: "\<not> check_command (strip ''wrong'') (Some ''pwd'')" by code_simp
  have n: "number (levels example_session ! idx example_session) = Some 1"
    "number (example_levels ! 0) = Some 1"
    by (simp_all add: example_session_fields example_levels_def)
  have q: "on_input (\<lambda>_. Run_raised) example_session '' EXIT '' =
        example_session\<lparr>log := log example_session
             @ [Level_input (number (levels example_session ! idx example_session))
                  (strip '' EXIT ''), User_exited],
           out := out example_session @ [Goodbye], phase := Terminated Quit\<rparr>
      \<and> phase (on_input (\<lambda>_. Run_raised) example_session '' EXIT '') = Terminated Quit
      \<and> checked (on_input (\<lambda>_. Run_raised) example_session '' EXIT '')
          = checked example_session
      \<and> (phase example_session = AwaitingInput \<longrightarrow>
           loop (\<lambda>_. Run_raised) example_session ['' EXIT '', ''pwd'']
           = on_input (\<lambda>_. Run_raised) example_session '' EXIT '')"
    using classification_precedes_matching
            [where raw = "'' EXIT ''" and s = example_session and run = "\<lambda>_. Run_raised"
               and rest = "[''pwd'']"] e
    by blast
  have a0: "on_input (\<lambda>_. Run_raised) example_session '' EXIT '' =
        example_session\<lparr>log := log example_session @ [Level_input (Some 1) ''EXIT'', User_exited],
           out := out example_session @ [Goodbye], phase := Terminated Quit\<rparr>"
    using q unfolding n(1) e1 by blast
  have a: "phase (on_input (\<lambda>_. Run_raised) example_session '' EXIT '') = Terminated Quit"
    "checked (on_input (\<lambda>_. Run_raised) example_session '' EXIT '') = []"
    "loop (\<lambda>_. Run_raised) example_session ['' EXIT '', ''pwd'']
       = on_input (\<lambda>_. Run_raised) example_session '' EXIT ''"
    using q example_session_fields(1,2) by simp_all
  have a1: "out (on_input (\<lambda>_. Run_raised) example_session '' EXIT '')
       = out example_session @ [Goodbye]"
    "log (on_input (\<lambda>_. Run_raised) example_session '' EXIT '')
       = log example_session @ [Level_input (Some 1) ''EXIT'', User_exited]"
    unfolding a0 by simp_all
  have hq: "checked (on_input (\<lambda>_. Run_raised) example_session ''Hint'')
             = checked example_session
      \<and> idx (on_input (\<lambda>_. Run_raised) example_session ''Hint'') = idx example_session
      \<and> out (on_input (\<lambda>_. Run_raised) example_session ''Hint'') =
          out example_session
          @ [if hint (levels example_session ! idx example_session) \<noteq> []
             then Hint (hint (levels example_session ! idx example_session)) else No_hint]"
    using classification_precedes_matching
            [where raw = "''Hint''" and s = example_session and run = "\<lambda>_. Run_raised"] h
    by blast
  have b: "checked (on_input (\<lambda>_. Run_raised) example_session ''Hint'') = []"
    "idx (on_input (\<lambda>_. Run_raised) example_session ''Hint'') = 0"
    "out (on_input (\<lambda>_. Run_raised) example_session ''Hint'')
       = out example_session @ [No_hint]"
    using hq example_session_fields(2,4) example_first_level(1) by simp_all
  have pc': "check_command (strip ''pwd'')
               (expected_command (levels example_session ! idx example_session))"
    unfolding example_first_level(2) by (rule pc)
  have cq: "checked (on_input (\<lambda>_. Run_raised) example_session ''pwd'')
             = checked example_session
               @ [(strip ''pwd'', expected_command (levels example_session ! idx example_session))]
      \<and> idx (on_input (\<lambda>_. Run_raised) example_session ''pwd'') = idx example_session + 1"
    using classification_precedes_matching
            [where raw = "''pwd''" and s = example_session and run = "\<lambda>_. Run_raised"] p pc'
    by blast
  have c: "checked (on_input (\<lambda>_. Run_raised) example_session ''pwd'')
             = [(''pwd'', Some ''pwd'')]"
    "idx (on_input (\<lambda>_. Run_raised) example_session ''pwd'') = 1"
    using cq example_session_fields(2,4) example_first_level(2) p1 by simp_all
  have wc': "\<not> check_command (strip ''wrong'')
               (expected_command (levels example_session ! idx example_session))"
    unfolding example_first_level(2) by (rule wc)
  have dq: "checked (on_input (\<lambda>_. Run_raised) example_session ''wrong'')
             = checked example_session
               @ [(strip ''wrong'', expected_command (levels example_session ! idx example_session))]
      \<and> idx (on_input (\<lambda>_. Run_raised) example_session ''wrong'') = idx example_session
      \<and> out (on_input (\<lambda>_. Run_raised) example_session ''wrong'')
          = out example_session @ [Incorrect]"
    using classification_precedes_matching
            [where raw = "''wrong''" and s = example_session and run = "\<lambda>_. Run_raised"] w wc'
    by blast
  have d: "checked (on_input (\<lambda>_. Run_raised) example_session ''wrong'')
             = [(''wrong'', Some ''pwd'')]"
    "idx (on_input (\<lambda>_. Run_raised) example_session ''wrong'') = 0"
    "out (on_input (\<lambda>_. Run_raised) example_session ''wrong'')
       = out example_session @ [Incorrect]"
    using dq example_session_fields(2,4) example_first_level(2) w1 by simp_all
  show ?thesis using e h p pc w wc a a1 b c d by (simp only: simp_thms)
qed

text \<open>
  C9 on the specification's end-to-end run: the level index goes 0, 0, 0, 1, 2 over the
  inputs \<open>wrong\<close>, \<open>hint\<close>, \<open>pwd\<close>, \<open>ls -l\<close>.
\<close>

theorem levels_fixed_index_monotone_witness:
  "map levels (states (\<lambda>_. Run_raised) example_session [''wrong'', ''hint'', ''pwd'', ''ls -l''])
     = replicate 5 example_levels
   \<and> sorted (map idx (states (\<lambda>_. Run_raised) example_session
                        [''wrong'', ''hint'', ''pwd'', ''ls -l'']))
   \<and> map idx (states (\<lambda>_. Run_raised) example_session [''wrong'', ''hint'', ''pwd'', ''ls -l''])
       = [0, 0, 0, 1, 2]"
proof -
  let ?xs = "states (\<lambda>_. Run_raised) example_session [''wrong'', ''hint'', ''pwd'', ''ls -l'']"
  have m: "map idx ?xs = [0, 0, 0, 1, 2]"
    by code_simp
  have a: "\<forall>t\<in>set ?xs. levels t = example_levels" "sorted (map idx ?xs)"
    using levels_fixed_index_monotone
            [where s = example_session and run = "\<lambda>_. Run_raised"
               and inputs = "[''wrong'', ''hint'', ''pwd'', ''ls -l'']"
               and raw = "''wrong''" and ?t0.0 = "''t0''" and ?t1.0 = "''t1''"
               and lvls = example_levels]
    unfolding example_session_fields(5) by blast+
  have "length (map idx ?xs) = 5" unfolding m by simp
  then have l: "length ?xs = 5" by simp
  have "\<forall>y\<in>set (map levels ?xs). y = example_levels" using a(1) by simp
  then have "replicate (length (map levels ?xs)) example_levels = map levels ?xs"
    by (rule replicate_length_same)
  then have "map levels ?xs = replicate 5 example_levels" using l by simp
  then show ?thesis using m a(2) by (simp only: simp_thms)
qed

end
